theory Spec2Isabelle
  imports Complex_Main "HOL-Library.Word"
begin

section \<open>Strings\<close>

text \<open>
  A JavaScript string is a sequence of 16-bit code units; \<open>length\<close> counts code units,
  as \<open>String.prototype.length\<close> does. \<open>js\<close> writes an ASCII literal as such a sequence.
\<close>

type_synonym code_unit = "16 word"
type_synonym jstring = "code_unit list"

definition js :: "string \<Rightarrow> jstring" where
  "js s = map of_char s"

text \<open>
  The pattern of \<open>toCamelCase\<close> is \<open>/([-_][a-z])/gi\<close>. Its first class holds the hyphen
  (0x2D) and the underscore (0x5F). Its second class is \<open>[a-z]\<close> under the \<open>i\<close> flag: a
  code unit matches when its canonical (upper-case) form is that of a member, and without
  the \<open>u\<close> flag a unit of 128 or more is never canonicalised to an ASCII unit, so the class
  holds exactly the ASCII letters of both cases.
\<close>

definition is_separator :: "code_unit \<Rightarrow> bool" where
  "is_separator c = (c = 0x2D \<or> c = 0x5F)"

definition is_letter :: "code_unit \<Rightarrow> bool" where
  "is_letter c = ((0x41 \<le> c \<and> c \<le> 0x5A) \<or> (0x61 \<le> c \<and> c \<le> 0x7A))"

text \<open>
  \<open>String.prototype.toUpperCase\<close> on the strings this program applies it to: the matches
  of the pattern (a separator and an ASCII letter) and the verb names. On ASCII it maps
  \<open>a\<close>..\<open>z\<close> to \<open>A\<close>..\<open>Z\<close> and keeps every other unit.
\<close>

definition upper_unit :: "code_unit \<Rightarrow> code_unit" where
  "upper_unit c = (if 0x61 \<le> c \<and> c \<le> 0x7A then c - 0x20 else c)"

definition toUpperCase :: "jstring \<Rightarrow> jstring" where
  "toUpperCase s = map upper_unit s"

text \<open>
  \<open>s.replace(p, r)\<close> with a string pattern of one code unit: only the first occurrence
  is replaced.
\<close>

fun replace_unit :: "code_unit \<Rightarrow> jstring \<Rightarrow> jstring \<Rightarrow> jstring" where
  "replace_unit p r [] = []"
| "replace_unit p r (c # cs) = (if c = p then r @ cs else c # replace_unit p r cs)"

text \<open>
  The pattern tried at the start of a string: the matched text and what follows it.
\<close>

fun match_here :: "jstring \<Rightarrow> (jstring \<times> jstring) option" where
  "match_here (c # d # rest) =
     (if is_separator c \<and> is_letter d then Some ([c, d], rest) else None)"
| "match_here _ = None"

text \<open>
  \<open>s.replace(regex, f)\<close> with the \<open>g\<close> flag and a replacer function: the string is
  scanned from the left; at a match the replacer's result is emitted and the scan goes on
  after the match, otherwise the unit is copied and the scan moves one unit on.
\<close>

function replace_global :: "(jstring \<Rightarrow> jstring) \<Rightarrow> jstring \<Rightarrow> jstring" where
  "replace_global f [] = []"
| "replace_global f (c # cs) =
     (case match_here (c # cs) of
        Some (m, rest) \<Rightarrow> f m @ replace_global f rest
      | None \<Rightarrow> c # replace_global f cs)"
  by pat_completeness auto
termination
  by (relation "measure (\<lambda>(f, s). length s)") (auto elim!: match_here.elims split: if_splits)

text \<open>
  \<^verbatim>\<open>value.replace(/([-_][a-z])/gi, $1 => $1.toUpperCase().replace("-", "").replace("_", ""))\<close>
\<close>

definition toCamelCase :: "jstring \<Rightarrow> jstring" where
  "toCamelCase value =
     replace_global (\<lambda>m. replace_unit 0x5F [] (replace_unit 0x2D [] (toUpperCase m))) value"

text \<open>
  The specification's wording of \<open>camelCase\<close>, to compare with the code: every separator
  immediately followed by a letter becomes that letter in upper case, everything else is
  kept.
\<close>

fun camelCase_spec :: "jstring \<Rightarrow> jstring" where
  "camelCase_spec (c # d # rest) =
     (if is_separator c \<and> is_letter d then upper_unit d # camelCase_spec rest
      else c # camelCase_spec (d # rest))"
| "camelCase_spec s = s"

text \<open>A separator immediately followed by a letter, somewhere in the string.\<close>

fun sep_letter :: "jstring \<Rightarrow> bool" where
  "sep_letter (a # b # rest) = (is_separator a \<and> is_letter b \<or> sep_letter (b # rest))"
| "sep_letter s = False"

text \<open>A separator, a second separator and a letter in a row, somewhere in the string.\<close>

fun sep_sep_letter :: "jstring \<Rightarrow> bool" where
  "sep_sep_letter (a # b # c # rest) =
     (is_separator a \<and> is_separator b \<and> is_letter c \<or> sep_sep_letter (b # c # rest))"
| "sep_sep_letter s = False"

text \<open>A separator immediately followed by a lower-case ASCII letter, somewhere in the string.\<close>

fun sep_lower :: "jstring \<Rightarrow> bool" where
  "sep_lower (a # b # rest) =
     (is_separator a \<and> 0x61 \<le> b \<and> b \<le> 0x7A \<or> sep_lower (b # rest))"
| "sep_lower s = False"

text \<open>The ASCII digits.\<close>

definition is_digit :: "code_unit \<Rightarrow> bool" where
  "is_digit c = (0x30 \<le> c \<and> c \<le> 0x39)"

section \<open>JSON values and the key normalizer\<close>

text \<open>
  A JSON-compatible value. An object is the list of its own properties in the order
  \<open>Object.keys\<close> enumerates them (array-index keys first, then the other keys as they
  were inserted); a JavaScript object has no two properties of one name. Numbers are
  finite and are not inspected by the normalizer; the pipeline only tests them against
  zero.
\<close>

datatype json =
    JNull
  | JBool bool
  | JNumber rat
  | JString jstring
  | JArray "json list"
  | JObject "(jstring \<times> json) list"

text \<open>
  \<open>result[key] = v\<close> on a plain object: an existing property keeps its place and takes
  the new value, a new property goes to the end. (The keys written by the normalizer
  are results of \<open>toCamelCase\<close>; the section on the casing transform shows that none of
  them is \<open>__proto__\<close> and that they come in the engine's order.)
\<close>

fun assign :: "jstring \<Rightarrow> json \<Rightarrow> (jstring \<times> json) list \<Rightarrow> (jstring \<times> json) list" where
  "assign key v [] = [(key, v)]"
| "assign key v ((k, w) # props) =
     (if k = key then (key, v) # props else (k, w) # assign key v props)"

text \<open>
  \<open>keysToCamelCase\<close>: the first branch is taken by objects other than arrays (no JSON
  value is a function), the second by arrays, the last by strings, numbers, booleans and
  null. The recursion goes through \<open>forEach\<close> and \<open>map\<close> into the members of the value;
  it ends because every member is smaller than the value that holds it.
\<close>

function (sequential) keysToCamelCase :: "json \<Rightarrow> json" where
  "keysToCamelCase (JObject props) =
     JObject (foldl (\<lambda>result (key, v). assign (toCamelCase key) (keysToCamelCase v) result)
                [] props)"
| "keysToCamelCase (JArray xs) = JArray (map keysToCamelCase xs)"
| "keysToCamelCase v = v"
  by pat_completeness auto
termination
  by lexicographic_order

text \<open>The own properties of an object (\<open>Object.entries\<close>); no other value has any.\<close>

fun entries :: "json \<Rightarrow> (jstring \<times> json) list" where
  "entries (JObject props) = props"
| "entries v = []"

text \<open>
  The same function on an engine whose call stack has room for \<open>room\<close> more nested
  activations of \<open>keysToCamelCase\<close>, each counted with the frames of \<open>forEach\<close>,
  \<open>map\<close>, their callbacks and \<open>toCamelCase\<close> that it needs. A call for which there is
  no room raises \<open>RangeError\<close> (maximum call stack size exceeded); nothing in the
  function catches it, so it ends the loop and every enclosing call.
\<close>

datatype engine_error = RangeError

fun keysToCamelCase_stack :: "nat \<Rightarrow> json \<Rightarrow> engine_error + json" where
  "keysToCamelCase_stack 0 value = Inl RangeError"
| "keysToCamelCase_stack (Suc room) (JObject props) =
     (case foldl (\<lambda>result (key, v).
                    case result of
                      Inl e \<Rightarrow> Inl e
                    | Inr res \<Rightarrow>
                        (case keysToCamelCase_stack room v of
                           Inl e \<Rightarrow> Inl e
                         | Inr w \<Rightarrow> Inr (assign (toCamelCase key) w res)))
                 (Inr []) props of
        Inl e \<Rightarrow> Inl e
      | Inr result \<Rightarrow> Inr (JObject result))"
| "keysToCamelCase_stack (Suc room) (JArray xs) =
     (case foldl (\<lambda>result x.
                    case result of
                      Inl e \<Rightarrow> Inl e
                    | Inr ys \<Rightarrow>
                        (case keysToCamelCase_stack room x of
                           Inl e \<Rightarrow> Inl e
                         | Inr y \<Rightarrow> Inr (ys @ [y])))
                 (Inr []) xs of
        Inl e \<Rightarrow> Inl e
      | Inr ys \<Rightarrow> Inr (JArray ys))"
| "keysToCamelCase_stack (Suc room) v = Inr v"

subsection \<open>What is observed of a value's structure\<close>

text \<open>Nesting depth: 0 for a scalar, one more than the deepest member otherwise.\<close>

fun depth :: "json \<Rightarrow> nat" where
  "depth (JObject props) = Suc (foldr max (map (\<lambda>(k, v). depth v) props) 0)"
| "depth (JArray xs) = Suc (foldr max (map depth xs) 0)"
| "depth v = 0"

text \<open>The lengths of all arrays of a value, outer before inner, left to right.\<close>

fun array_lengths :: "json \<Rightarrow> nat list" where
  "array_lengths (JObject props) = concat (map (\<lambda>(k, v). array_lengths v) props)"
| "array_lengths (JArray xs) = length xs # concat (map array_lengths xs)"
| "array_lengths v = []"

text \<open>
  A value with every object key blanked: what is left is the nesting, the arrays with
  their elements in order, the number and order of fields, and every scalar.
\<close>

fun forget_keys :: "json \<Rightarrow> json" where
  "forget_keys (JObject props) = JObject (map (\<lambda>(k, v). ([], forget_keys v)) props)"
| "forget_keys (JArray xs) = JArray (map forget_keys xs)"
| "forget_keys v = v"

text \<open>A value with every object key renamed by \<open>f\<close> and nothing else changed.\<close>

fun rename_keys :: "(jstring \<Rightarrow> jstring) \<Rightarrow> json \<Rightarrow> json" where
  "rename_keys f (JObject props) = JObject (map (\<lambda>(k, v). (f k, rename_keys f v)) props)"
| "rename_keys f (JArray xs) = JArray (map (rename_keys f) xs)"
| "rename_keys f v = v"

text \<open>
  No object of the value, at any depth, has two properties whose keys have the same
  camelCase form.
\<close>

fun collision_free :: "json \<Rightarrow> bool" where
  "collision_free (JObject props) =
     (distinct (map (\<lambda>(k, v). toCamelCase k) props) \<and>
      list_all (\<lambda>(k, v). collision_free v) props)"
| "collision_free (JArray xs) = list_all collision_free xs"
| "collision_free v = True"

text \<open>
  No object key of the value, at any depth, has a separator followed by a second
  separator and a letter.
\<close>

fun keys_settle :: "json \<Rightarrow> bool" where
  "keys_settle (JObject props) =
     list_all (\<lambda>(k, v). \<not> sep_sep_letter k \<and> keys_settle v) props"
| "keys_settle (JArray xs) = list_all keys_settle xs"
| "keys_settle v = True"

text \<open>\<open>n\<close> levels of an array holding an object with the one key \<open>k\<close>, around \<open>v\<close>.\<close>

fun nest :: "jstring \<Rightarrow> nat \<Rightarrow> json \<Rightarrow> json" where
  "nest k 0 v = v"
| "nest k (Suc n) v = JArray [JObject [(k, nest k n v)]]"

text \<open>The elements of a list in the order in which each is first seen.\<close>

fun first_seen :: "'a list \<Rightarrow> 'a list" where
  "first_seen [] = []"
| "first_seen (x # xs) = x # filter (\<lambda>y. y \<noteq> x) (first_seen xs)"

section \<open>The request pipeline\<close>

datatype verb = Post | Get | Delete

fun verb_text :: "verb \<Rightarrow> jstring" where
  "verb_text Post = js ''post''"
| "verb_text Get = js ''get''"
| "verb_text Delete = js ''delete''"

text \<open>
  The text \<open>JSON.stringify\<close> returns for a JSON value, kept as the value it is the text
  of; \<open>JSON.stringify\<close> of an omitted (undefined) payload is undefined.
\<close>

datatype json_text = JSON_stringify json

record request =
  url :: jstring
  http_method :: jstring
  body :: "json_text option"
  headers :: "(jstring \<times> jstring) list"

text \<open>
  What the program reads of a \<open>Response\<close>: the status, and the outcome of
  \<open>response.json()\<close>, which is the parsed body or the reason of its rejection.
\<close>

record response =
  status :: nat
  json_body :: "jstring + json"

text \<open>\<open>response.ok\<close>: the status is in the range 200 to 299.\<close>

definition ok :: "response \<Rightarrow> bool" where
  "ok r = (200 \<le> status r \<and> status r \<le> 299)"

datatype sendblue_error_name = API_REQUEST_FAILURE

record cause_response =
  code :: nat
  message :: "json option"

record error_cause =
  request :: "json_text option"
  response :: cause_response

record custom_error =
  name :: sendblue_error_name
  message :: jstring
  cause :: error_cause

text \<open>
  How a call can be rejected: \<open>fetch\<close> rejects, \<open>response.json()\<close> rejects, reading a
  property of null raises a TypeError, or the program throws its \<open>SendblueError\<close>.
\<close>

datatype rejection =
    FetchRejected jstring
  | JsonRejected jstring
  | TypeError
  | SendblueError custom_error

definition sendblueBaseUrl :: jstring where
  "sendblueBaseUrl = js ''https://api.sendblue.co''"

text \<open>The condition of \<open>payload ? ... : null\<close> on a JSON value.\<close>

fun truthy :: "json \<Rightarrow> bool" where
  "truthy JNull = False"
| "truthy (JBool b) = b"
| "truthy (JNumber n) = (n \<noteq> 0)"
| "truthy (JString s) = (s \<noteq> [])"
| "truthy v = True"

text \<open>
  \<open>responseBody.message\<close>: the property of an object when it has one, undefined
  (\<open>None\<close>) on an object without it and on arrays, strings, numbers and booleans, a
  TypeError on null.
\<close>

fun read_message :: "json \<Rightarrow> rejection + json option" where
  "read_message JNull = Inl TypeError"
| "read_message (JObject props) = Inr (map_of props (js ''message''))"
| "read_message v = Inr None"

text \<open>
  The arguments of the call of \<open>fetch\<close>; an omitted payload is \<open>None\<close>.
\<close>

definition fetch_request ::
  "jstring \<Rightarrow> jstring \<Rightarrow> verb \<Rightarrow> jstring \<Rightarrow> json option \<Rightarrow> request" where
  "fetch_request publicKey secretKey meth pathname payload =
     \<lparr>url = sendblueBaseUrl @ pathname,
      http_method = toUpperCase (verb_text meth),
      body = (case payload of
                None \<Rightarrow> None
              | Some p \<Rightarrow> if truthy p then Some (JSON_stringify p) else None),
      headers = [(js ''sb-api-key-id'', publicKey),
                 (js ''sb-api-secret-key'', secretKey),
                 (js ''Content-Type'', js ''application/json'')]\<rparr>"

text \<open>
  \<open>Sendblue.api\<close>, for a client constructed with \<open>publicKey\<close> and \<open>secretKey\<close>.
  \<open>fetch\<close> is the transport: it rejects with a reason or resolves to a response. The
  result is the list of requests handed to the transport and the outcome of the call.
\<close>

definition api ::
  "(request \<Rightarrow> jstring + response) \<Rightarrow> jstring \<Rightarrow> jstring \<Rightarrow>
   verb \<Rightarrow> jstring \<Rightarrow> json option \<Rightarrow> request list \<times> (rejection + json)" where
  "api fetch publicKey secretKey meth pathname payload =
     (let req = fetch_request publicKey secretKey meth pathname payload in
      ([req],
       case fetch req of
         Inl reason \<Rightarrow> Inl (FetchRejected reason)
       | Inr resp \<Rightarrow>
           (case json_body resp of
              Inl reason \<Rightarrow> Inl (JsonRejected reason)
            | Inr parsed \<Rightarrow>
                (let responseBody = keysToCamelCase parsed in
                 if \<not> ok resp then
                   (case read_message responseBody of
                      Inl e \<Rightarrow> Inl e
                    | Inr m \<Rightarrow>
                        Inl (SendblueError
                          \<lparr>name = API_REQUEST_FAILURE,
                           message = js ''Error fetching data from Sendblue on route ''
                                       @ [0x22] @ pathname @ [0x22],
                           cause = \<lparr>request = map_option JSON_stringify payload,
                                     response = \<lparr>code = status resp,
                                                  cause_response.message = m\<rparr>\<rparr>\<rparr>))
                 else Inr responseBody))))"

text \<open>The call was rejected with the program's structured error.\<close>

fun raised_structured :: "rejection + json \<Rightarrow> bool" where
  "raised_structured (Inl (SendblueError e)) = True"
| "raised_structured r = False"

section \<open>Properties of the casing transform\<close>

subsection \<open>The code against the specification\<close>

lemma replace_global_match:
  "is_separator c \<Longrightarrow> is_letter d \<Longrightarrow>
   replace_global f (c # d # rest) = f [c, d] @ replace_global f rest"
  by (subst replace_global.simps(2)) (simp del: replace_global.simps)

lemma replace_global_skip:
  "\<not> (is_separator c \<and> is_letter d) \<Longrightarrow>
   replace_global f (c # d # rest) = c # replace_global f (d # rest)"
  by (subst replace_global.simps(2)) (auto simp del: replace_global.simps)

text \<open>
  On a match the replacer returns the letter in upper case alone: \<open>toUpperCase\<close> keeps
  the separator, and the two \<open>replace\<close> calls delete it (one of them finds nothing).
\<close>

lemma replacer_on_match:
  "is_separator c \<Longrightarrow> is_letter d \<Longrightarrow>
   replace_unit 0x5F [] (replace_unit 0x2D [] (toUpperCase [c, d])) = [upper_unit d]"
  by (auto simp: is_separator_def is_letter_def toUpperCase_def upper_unit_def)

lemma toCamelCase_spec: "toCamelCase s = camelCase_spec s"
  unfolding toCamelCase_def
proof (induction s rule: camelCase_spec.induct)
  case (1 c d rest)
  show ?case
  proof (cases "is_separator c \<and> is_letter d")
    case True
    with "1.IH"(1) show ?thesis
      by (simp add: replace_global_match replacer_on_match del: replace_global.simps)
  next
    case False
    with "1.IH"(2) show ?thesis
      by (auto simp add: replace_global_skip simp del: replace_global.simps)
  qed
qed simp_all

lemma length_camelCase_spec: "length (camelCase_spec s) \<le> length s"
  by (induction s rule: camelCase_spec.induct) auto

text \<open>
  Claim C1. For every input string, \<open>toCamelCase\<close> replaces each hyphen or underscore
  that is immediately followed by a letter (an ASCII letter, the pattern's \<open>[a-z]\<close> under
  the \<open>i\<close> flag), together with that letter, by the letter in upper case, whatever the
  letter's case was, and keeps every other code unit: it is the function the
  specification describes. In particular it maps \<open>media_url\<close> to \<open>mediaUrl\<close>,
  \<open>error_code\<close> to \<open>errorCode\<close>, \<open>already_camel\<close> to \<open>alreadyCamel\<close>, \<open>no-sep\<close> to
  \<open>noSep\<close>, the empty string to itself and \<open>trailing_\<close> to itself.
\<close>

theorem toCamelCase_as_specified:
  "toCamelCase s = camelCase_spec s
   \<and> toCamelCase (js ''media_url'') = js ''mediaUrl''
   \<and> toCamelCase (js ''error_code'') = js ''errorCode''
   \<and> toCamelCase (js ''already_camel'') = js ''alreadyCamel''
   \<and> toCamelCase (js ''no-sep'') = js ''noSep''
   \<and> toCamelCase (js '''') = js ''''
   \<and> toCamelCase (js ''trailing_'') = js ''trailing_''
   \<and> toCamelCase (js ''upper_Case'') = js ''upperCase''"
proof -
  have "toCamelCase (js ''media_url'') = js ''mediaUrl''" by code_simp
  moreover have "toCamelCase (js ''error_code'') = js ''errorCode''" by code_simp
  moreover have "toCamelCase (js ''already_camel'') = js ''alreadyCamel''" by code_simp
  moreover have "toCamelCase (js ''no-sep'') = js ''noSep''" by code_simp
  moreover have "toCamelCase (js '''') = js ''''" by code_simp
  moreover have "toCamelCase (js ''trailing_'') = js ''trailing_''" by code_simp
  moreover have "toCamelCase (js ''upper_Case'') = js ''upperCase''" by code_simp
  ultimately show ?thesis by (simp only: toCamelCase_spec simp_thms)
qed

text \<open>
  Claim C10. For every string \<open>s\<close>, \<open>toCamelCase s\<close> has at most as many code units as
  \<open>s\<close>: a replacement turns two units into one and nothing is inserted.
\<close>

theorem toCamelCase_never_longer: "length (toCamelCase s) \<le> length s"
  by (simp add: toCamelCase_spec length_camelCase_spec)

subsection \<open>Strings that the transform leaves alone\<close>

lemma upper_unit_letter:
  "is_letter d \<Longrightarrow> is_letter (upper_unit d) \<and> \<not> is_separator (upper_unit d)"
  unfolding is_letter_def is_separator_def upper_unit_def
  by (auto; unat_arith)

lemma sep_letter_Cons:
  "sep_letter (x # ys) = (is_separator x \<and> ys \<noteq> [] \<and> is_letter (hd ys) \<or> sep_letter ys)"
  by (cases ys) auto

lemma sep_sep_letter_Cons: "sep_sep_letter ys \<Longrightarrow> sep_sep_letter (x # ys)"
  by (cases ys rule: sep_sep_letter.cases) auto

lemma camelCase_spec_fixed: "\<not> sep_letter t \<Longrightarrow> camelCase_spec t = t"
  by (induction t rule: camelCase_spec.induct) auto

lemma camelCase_spec_Nil: "camelCase_spec s = [] \<longleftrightarrow> s = []"
  by (cases s rule: camelCase_spec.cases) auto

lemma hd_camelCase_spec:
  "hd (camelCase_spec (d # rest)) =
   (if is_separator d \<and> rest \<noteq> [] \<and> is_letter (hd rest) then upper_unit (hd rest) else d)"
  by (cases rest) auto

text \<open>
  The result of the transform still has a separator before a letter only where the input
  had two separators before a letter: the scan does not look at its own output again.
\<close>

lemma camelCase_spec_settled:
  "\<not> sep_sep_letter s \<Longrightarrow> \<not> sep_letter (camelCase_spec s)"
proof (induction s rule: camelCase_spec.induct)
  case (1 c d rest)
  show ?case
  proof (cases "is_separator c \<and> is_letter d")
    case True
    from "1.prems" have "\<not> sep_sep_letter rest"
      using sep_sep_letter_Cons by blast
    with True "1.IH"(1) have "\<not> sep_letter (camelCase_spec rest)"
      by simp
    with True show ?thesis
      by (simp add: sep_letter_Cons upper_unit_letter)
  next
    case False
    from "1.prems" have nss: "\<not> sep_sep_letter (d # rest)"
      using sep_sep_letter_Cons by blast
    with False "1.IH"(2) have tail: "\<not> sep_letter (camelCase_spec (d # rest))"
      by simp
    have "\<not> (is_separator c \<and> is_letter (hd (camelCase_spec (d # rest))))"
    proof
      assume a: "is_separator c \<and> is_letter (hd (camelCase_spec (d # rest)))"
      with False have nd: "\<not> is_letter d" by simp
      show False
      proof (cases "is_separator d \<and> rest \<noteq> [] \<and> is_letter (hd rest)")
        case True
        then obtain x r where "rest = x # r" "is_letter x"
          by (cases rest) auto
        with True a "1.prems" show False by simp
      next
        case False
        with a nd show False
          by (simp add: hd_camelCase_spec del: camelCase_spec.simps)
      qed
    qed
    with False tail show ?thesis
      by (auto simp: sep_letter_Cons simp del: camelCase_spec.simps
               simp add: camelCase_spec.simps(1) [of c d rest])
  qed
qed simp_all

lemma toCamelCase_settled:
  "\<not> sep_sep_letter s \<Longrightarrow> toCamelCase (toCamelCase s) = toCamelCase s"
  by (simp add: toCamelCase_spec camelCase_spec_settled camelCase_spec_fixed)

subsection \<open>Keys that the transform cannot produce\<close>

text \<open>
  Two facts behind the model of \<open>result[key] = v\<close> as a list update. The transform never
  returns \<open>__proto__\<close>, the one key whose assignment on a plain object is not a property
  write. And a key made of digits only is returned as it is, while no other key becomes
  one: the engine enumerates array-index keys before the others, so a list in the
  engine's order stays in the engine's order when the loop appends to it.
\<close>

lemma sep_lower_Cons:
  "sep_lower (x # ys) =
   (is_separator x \<and> ys \<noteq> [] \<and> 0x61 \<le> hd ys \<and> hd ys \<le> 0x7A \<or> sep_lower ys)"
  by (cases ys) auto

lemma upper_unit_not_lower:
  "is_letter d \<Longrightarrow> \<not> (0x61 \<le> upper_unit d \<and> upper_unit d \<le> 0x7A)"
  unfolding is_letter_def upper_unit_def
  by (auto; unat_arith)

lemma lower_is_letter: "0x61 \<le> d \<Longrightarrow> d \<le> 0x7A \<Longrightarrow> is_letter d"
  by (simp add: is_letter_def)

lemma camelCase_spec_no_sep_lower: "\<not> sep_lower (camelCase_spec s)"
proof (induction s rule: camelCase_spec.induct)
  case (1 c d rest)
  show ?case
  proof (cases "is_separator c \<and> is_letter d")
    case True
    with "1.IH"(1) show ?thesis
      by (simp add: sep_lower_Cons upper_unit_letter)
  next
    case False
    with "1.IH"(2) have tail: "\<not> sep_lower (camelCase_spec (d # rest))"
      by simp
    have "\<not> (is_separator c \<and> 0x61 \<le> hd (camelCase_spec (d # rest))
             \<and> hd (camelCase_spec (d # rest)) \<le> 0x7A)"
    proof (cases "is_separator d \<and> rest \<noteq> [] \<and> is_letter (hd rest)")
      case True
      then show ?thesis
        using upper_unit_not_lower [of "hd rest"]
        by (simp add: hd_camelCase_spec del: camelCase_spec.simps)
    next
      case no: False
      with False show ?thesis
        using lower_is_letter [of d]
        by (auto simp add: hd_camelCase_spec simp del: camelCase_spec.simps)
    qed
    with False tail show ?thesis
      by (auto simp: sep_lower_Cons camelCase_spec_Nil simp del: camelCase_spec.simps
               simp add: camelCase_spec.simps(1) [of c d rest])
  qed
qed simp_all

lemma toCamelCase_never_proto: "toCamelCase s \<noteq> js ''__proto__''"
proof
  assume "toCamelCase s = js ''__proto__''"
  moreover have "sep_lower (js ''__proto__'')"
    by (simp add: js_def is_separator_def)
  ultimately have "sep_lower (camelCase_spec s)"
    by (simp add: toCamelCase_spec)
  with camelCase_spec_no_sep_lower show False by blast
qed

lemma digit_plain: "is_digit c \<Longrightarrow> \<not> is_separator c \<and> \<not> is_letter c"
  unfolding is_digit_def is_separator_def is_letter_def
  by (auto; unat_arith)

lemma toCamelCase_digits: "list_all is_digit (toCamelCase s) \<longleftrightarrow> list_all is_digit s"
  unfolding toCamelCase_spec
proof (induction s rule: camelCase_spec.induct)
  case (1 c d rest)
  show ?case
  proof (cases "is_separator c \<and> is_letter d")
    case True
    then have "\<not> is_digit c" "\<not> is_digit (upper_unit d)"
      using digit_plain [of c] digit_plain [of "upper_unit d"] upper_unit_letter [of d] by auto
    with True show ?thesis by simp
  next
    case False
    with "1.IH"(2) show ?thesis by auto
  qed
qed simp_all

lemma toCamelCase_digits_fixed: "list_all is_digit s \<Longrightarrow> toCamelCase s = s"
proof -
  assume "list_all is_digit s"
  then have "\<not> sep_letter s"
    by (induction s rule: sep_letter.induct) (auto simp: digit_plain)
  then show ?thesis
    by (simp add: toCamelCase_spec camelCase_spec_fixed)
qed

section \<open>Properties of the key normalizer\<close>

subsection \<open>Assignment to a property\<close>

lemma map_of_assign: "map_of (assign k v ps) = (map_of ps)(k \<mapsto> v)"
  by (induction k v ps rule: assign.induct) (auto simp: fun_eq_iff)

lemma keys_assign: "fst ` set (assign k v ps) = insert k (fst ` set ps)"
  by (induction k v ps rule: assign.induct) auto

lemma set_assign: "set (assign k v ps) \<subseteq> insert (k, v) (set ps)"
  by (induction k v ps rule: assign.induct) auto

lemma distinct_assign: "distinct (map fst ps) \<Longrightarrow> distinct (map fst (assign k v ps))"
  by (induction k v ps rule: assign.induct) (auto simp: keys_assign)

lemma assign_fresh: "k \<notin> fst ` set ps \<Longrightarrow> assign k v ps = ps @ [(k, v)]"
  by (induction k v ps rule: assign.induct) auto

subsection \<open>The loop over the keys\<close>

text \<open>
  The loop of \<open>keysToCamelCase\<close>, started from any object built so far, with \<open>f\<close> for the
  transform of the keys and \<open>g\<close> for the recursive call. A later write to a key wins.
\<close>

lemma map_of_loop:
  "map_of (foldl (\<lambda>result (key, v). assign (f key) (g v) result) acc ps) =
   map_of acc ++ map_of (rev (map (\<lambda>(key, v). (f key, g v)) ps))"
proof (induction ps arbitrary: acc)
  case Nil
  show ?case by simp
next
  case (Cons p ps)
  obtain k v where p: "p = (k, v)" by (cases p)
  show ?case
    by (simp add: p Cons.IH map_of_assign map_add_def fun_eq_iff split: option.splits)
qed

lemma keys_loop:
  "fst ` set (foldl (\<lambda>result (key, v). assign (f key) (g v) result) acc ps) =
   fst ` set acc \<union> f ` fst ` set ps"
proof (induction ps arbitrary: acc)
  case Nil
  show ?case by simp
next
  case (Cons p ps)
  obtain k v where p: "p = (k, v)" by (cases p)
  show ?case by (simp add: p Cons.IH keys_assign)
qed

lemma set_loop:
  "set (foldl (\<lambda>result (key, v). assign (f key) (g v) result) acc ps) \<subseteq>
   set acc \<union> (\<lambda>(key, v). (f key, g v)) ` set ps"
proof (induction ps arbitrary: acc)
  case Nil
  show ?case by simp
next
  case (Cons p ps)
  obtain k v where p: "p = (k, v)" by (cases p)
  have "set (foldl (\<lambda>result (key, v). assign (f key) (g v) result) (assign (f k) (g v) acc) ps)
        \<subseteq> set (assign (f k) (g v) acc) \<union> (\<lambda>(key, v). (f key, g v)) ` set ps"
    by (rule Cons.IH)
  with set_assign [of "f k" "g v" acc] show ?case
    by (auto simp: p)
qed

lemma distinct_loop:
  "distinct (map fst acc) \<Longrightarrow>
   distinct (map fst (foldl (\<lambda>result (key, v). assign (f key) (g v) result) acc ps))"
proof (induction ps arbitrary: acc)
  case Nil
  then show ?case by simp
next
  case (Cons p ps)
  obtain k v where p: "p = (k, v)" by (cases p)
  from Cons.prems show ?case
    by (simp add: p Cons.IH distinct_assign)
qed

lemma length_loop:
  "length (foldl (\<lambda>result (key, v). assign (f key) (g v) result) [] ps) =
   card (f ` fst ` set ps)"
proof -
  let ?out = "foldl (\<lambda>result (key, v). assign (f key) (g v) result) [] ps"
  have "distinct (map fst ?out)"
    by (rule distinct_loop) simp
  then have "card (set (map fst ?out)) = length (map fst ?out)"
    by (rule distinct_card)
  moreover have "set (map fst ?out) = f ` fst ` set ps"
    using keys_loop [of f g "[]" ps] by simp
  ultimately show ?thesis by simp
qed

text \<open>Without a collision every write is to a new key, and the loop is a \<open>map\<close>.\<close>

lemma loop_without_collision:
  "distinct (map (\<lambda>(key, v). f key) ps) \<Longrightarrow> f ` fst ` set ps \<inter> fst ` set acc = {} \<Longrightarrow>
   foldl (\<lambda>result (key, v). assign (f key) (g v) result) acc ps =
   acc @ map (\<lambda>(key, v). (f key, g v)) ps"
proof (induction ps arbitrary: acc)
  case Nil
  show ?case by simp
next
  case (Cons p ps)
  obtain k v where p: "p = (k, v)" by (cases p)
  from Cons.prems have fresh: "f k \<notin> fst ` set acc"
    by (auto simp: p)
  from Cons.prems have d: "distinct (map (\<lambda>(key, v). f key) ps)"
    by simp
  from Cons.prems have "f k \<notin> f ` fst ` set ps"
    by (force simp: p)
  with Cons.prems have "f ` fst ` set ps \<inter> fst ` set (acc @ [(f k, g v)]) = {}"
    by (auto simp: p)
  with d have "foldl (\<lambda>result (key, v). assign (f key) (g v) result) (acc @ [(f k, g v)]) ps =
      (acc @ [(f k, g v)]) @ map (\<lambda>(key, v). (f key, g v)) ps"
    by (rule Cons.IH)
  then show ?case
    by (simp add: p assign_fresh [OF fresh])
qed

subsection \<open>Scalars\<close>

text \<open>
  Claim C4. A scalar (a string, a number, a boolean or null) is returned as it is. A bare
  string with an underscore, such as \<open>a_b\<close>, is returned unchanged although the casing
  transform would change it: the transform is applied to keys only.
\<close>

theorem scalars_pass_through:
  "keysToCamelCase (JString s) = JString s
   \<and> keysToCamelCase (JNumber n) = JNumber n
   \<and> keysToCamelCase (JBool b) = JBool b
   \<and> keysToCamelCase JNull = JNull
   \<and> keysToCamelCase (JString (js ''a_b'')) = JString (js ''a_b'')
   \<and> toCamelCase (js ''a_b'') \<noteq> js ''a_b''"
proof -
  have "toCamelCase (js ''a_b'') \<noteq> js ''a_b''" by code_simp
  then show ?thesis by simp
qed

subsection \<open>Structure\<close>

lemma keysToCamelCase_rename:
  "collision_free v \<Longrightarrow> keysToCamelCase v = rename_keys toCamelCase v"
proof (induction v rule: keysToCamelCase.induct)
  case (1 props)
  from "1.prems" have d: "distinct (map (\<lambda>(key, v). toCamelCase key) props)"
    by simp
  have "foldl (\<lambda>result (key, v). assign (toCamelCase key) (keysToCamelCase v) result) [] props =
        [] @ map (\<lambda>(key, v). (toCamelCase key, keysToCamelCase v)) props"
    using d by (rule loop_without_collision) simp
  moreover have "map (\<lambda>(key, v). (toCamelCase key, keysToCamelCase v)) props =
        map (\<lambda>(key, v). (toCamelCase key, rename_keys toCamelCase v)) props"
    using "1.IH" "1.prems" by (auto simp: list_all_iff)
  ultimately show ?case by simp
next
  case (2 xs)
  then show ?case by (simp add: list_all_iff)
qed simp_all

lemma depth_rename_keys: "depth (rename_keys f v) = depth v"
proof (induction v rule: depth.induct)
  case (1 props)
  then have "map (\<lambda>(k, v). depth v) (map (\<lambda>(k, v). (f k, rename_keys f v)) props) =
             map (\<lambda>(k, v). depth v) props"
    by (auto simp: comp_def)
  then show ?case by (simp del: map_map)
next
  case (2 xs)
  then have "map depth (map (rename_keys f) xs) = map depth xs"
    by simp
  then show ?case by (simp del: map_map)
qed simp_all

lemma array_lengths_rename_keys: "array_lengths (rename_keys f v) = array_lengths v"
proof (induction v rule: array_lengths.induct)
  case (1 props)
  then have "map (\<lambda>(k, v). array_lengths v) (map (\<lambda>(k, v). (f k, rename_keys f v)) props) =
             map (\<lambda>(k, v). array_lengths v) props"
    by (auto simp: comp_def)
  then show ?case by (simp del: map_map)
next
  case (2 xs)
  then have "map array_lengths (map (rename_keys f) xs) = map array_lengths xs"
    by simp
  then show ?case by (simp del: map_map)
qed simp_all

lemma forget_keys_rename_keys: "forget_keys (rename_keys f v) = forget_keys v"
proof (induction v rule: forget_keys.induct)
  case (1 props)
  then have "map (\<lambda>(k, v). ([], forget_keys v)) (map (\<lambda>(k, v). (f k, rename_keys f v)) props) =
             map (\<lambda>(k, v). ([], forget_keys v)) props"
    by (auto simp: comp_def)
  then show ?case by (simp del: map_map)
next
  case (2 xs)
  then have "map forget_keys (map (rename_keys f) xs) = map forget_keys xs"
    by simp
  then show ?case by (simp del: map_map)
qed simp_all

text \<open>
  Claim C3, as the code has it. For every JSON-compatible value in which no object has two
  keys with the same camelCase form, the normalized value has the structure of the
  input: the same nesting depth, the same array lengths, and, the keys apart, the same
  value (arrays with their elements in order, fields in order, scalars unchanged); it is
  the input with every key renamed by \<open>toCamelCase\<close>. Where two keys of an object
  collide, a field and all that is below it are dropped, and the claim as first stated
  fails.
\<close>

theorem normalize_keeps_structure:
  assumes "collision_free v"
  shows "depth (keysToCamelCase v) = depth v
       \<and> array_lengths (keysToCamelCase v) = array_lengths v
       \<and> forget_keys (keysToCamelCase v) = forget_keys v
       \<and> keysToCamelCase v = rename_keys toCamelCase v"
  using assms
  by (simp add: keysToCamelCase_rename depth_rename_keys array_lengths_rename_keys
      forget_keys_rename_keys)

text \<open>
  An instance, the inner part of the specification's nested example: an object in an
  array in an object.
\<close>

theorem normalize_keeps_structure_witness:
  "collision_free
     (JObject [(js ''error_detail'', JArray [JObject [(js ''from_number'', JString (js ''x''))]])])
   \<and> keysToCamelCase
       (JObject [(js ''error_detail'', JArray [JObject [(js ''from_number'', JString (js ''x''))]])])
     = JObject [(js ''errorDetail'', JArray [JObject [(js ''fromNumber'', JString (js ''x''))]])]
   \<and> depth (keysToCamelCase
       (JObject [(js ''error_detail'', JArray [JObject [(js ''from_number'', JString (js ''x''))]])]))
     = 3"
proof -
  have a: "toCamelCase (js ''error_detail'') = js ''errorDetail''" by code_simp
  have b: "toCamelCase (js ''from_number'') = js ''fromNumber''" by code_simp
  have c: "collision_free
     (JObject [(js ''error_detail'', JArray [JObject [(js ''from_number'', JString (js ''x''))]])])"
    by simp
  from normalize_keeps_structure [OF c] show ?thesis
    using c by (simp add: a b)
qed

text \<open>
  The object \<open>{"a_b": [[1]], "a-b": 2}\<close> has depth 3 and two arrays of length 1. Both
  keys become \<open>aB\<close>, the second write replaces the nested array by 2, and the result
  \<open>{"aB": 2}\<close> has depth 1 and no array.
\<close>

theorem normalize_keeps_structure_counterexample:
  "depth (keysToCamelCase
            (JObject [(js ''a_b'', JArray [JArray [JNumber 1]]), (js ''a-b'', JNumber 2)])) = 1
   \<and> depth (JObject [(js ''a_b'', JArray [JArray [JNumber 1]]), (js ''a-b'', JNumber 2)]) = 3
   \<and> array_lengths (keysToCamelCase
            (JObject [(js ''a_b'', JArray [JArray [JNumber 1]]), (js ''a-b'', JNumber 2)])) = []
   \<and> array_lengths
        (JObject [(js ''a_b'', JArray [JArray [JNumber 1]]), (js ''a-b'', JNumber 2)]) = [1, 1]"
proof -
  have a: "toCamelCase (js ''a_b'') = js ''aB''" by code_simp
  have b: "toCamelCase (js ''a-b'') = js ''aB''" by code_simp
  show ?thesis by (simp add: a b)
qed

subsection \<open>Normalizing twice\<close>

lemma keysToCamelCase_fixed_object:
  assumes d: "distinct (map fst out)"
    and fixed: "\<And>k w. (k, w) \<in> set out \<Longrightarrow> toCamelCase k = k \<and> keysToCamelCase w = w"
  shows "keysToCamelCase (JObject out) = JObject out"
proof -
  have same: "map (\<lambda>(key, v). toCamelCase key) out = map fst out"
    using fixed by (auto simp: case_prod_beta)
  from d have "distinct (map (\<lambda>(key, v). toCamelCase key) out)"
    by (simp only: same)
  then have "foldl (\<lambda>result (key, v). assign (toCamelCase key) (keysToCamelCase v) result) [] out =
        [] @ map (\<lambda>(key, v). (toCamelCase key, keysToCamelCase v)) out"
    by (rule loop_without_collision) simp
  moreover have "map (\<lambda>(key, v). (toCamelCase key, keysToCamelCase v)) out = map (\<lambda>p. p) out"
    using fixed by (intro map_cong) auto
  ultimately show ?thesis by simp
qed

text \<open>
  Claim C2, as the code has it. For every JSON-compatible value in which no object key
  has a separator followed by a second separator and a letter, normalizing the
  normalized value changes nothing. A key such as \<open>a__b\<close> is not brought to a fixed
  point by one pass (it becomes \<open>a_B\<close>, and that becomes \<open>aB\<close>), so the claim as first
  stated fails.
\<close>

theorem normalize_twice:
  "keys_settle v \<Longrightarrow> keysToCamelCase (keysToCamelCase v) = keysToCamelCase v"
proof (induction v rule: keysToCamelCase.induct)
  case (1 props)
  let ?out = "foldl (\<lambda>result (key, v). assign (toCamelCase key) (keysToCamelCase v) result) [] props"
  have d: "distinct (map fst ?out)"
    by (rule distinct_loop) simp
  have fixed: "toCamelCase k' = k' \<and> keysToCamelCase w = w" if "(k', w) \<in> set ?out" for k' w
  proof -
    from that set_loop [of toCamelCase keysToCamelCase "[]" props]
    obtain k v where kv: "(k, v) \<in> set props" "k' = toCamelCase k" "w = keysToCamelCase v"
      by auto
    from kv(1) "1.prems" have ok: "\<not> sep_sep_letter k" "keys_settle v"
      by (auto simp: list_all_iff)
    from ok(1) have "toCamelCase k' = k'"
      by (simp add: kv(2) toCamelCase_settled)
    moreover from "1.IH" [OF kv(1) refl ok(2)] have "keysToCamelCase w = w"
      by (simp add: kv(3))
    ultimately show ?thesis ..
  qed
  have "keysToCamelCase (JObject ?out) = JObject ?out"
    using d fixed by (rule keysToCamelCase_fixed_object)
  then show ?case by simp
next
  case (2 xs)
  then show ?case by (simp add: list_all_iff)
qed simp_all

theorem normalize_twice_witness:
  "keys_settle
     (JObject [(js ''error_detail'', JArray [JObject [(js ''from_number'', JString (js ''x''))]])])
   \<and> keysToCamelCase (keysToCamelCase
        (JObject [(js ''error_detail'', JArray [JObject [(js ''from_number'', JString (js ''x''))]])]))
     = JObject [(js ''errorDetail'', JArray [JObject [(js ''fromNumber'', JString (js ''x''))]])]"
proof -
  have a: "toCamelCase (js ''error_detail'') = js ''errorDetail''" by code_simp
  have b: "toCamelCase (js ''from_number'') = js ''fromNumber''" by code_simp
  have c: "keys_settle
     (JObject [(js ''error_detail'', JArray [JObject [(js ''from_number'', JString (js ''x''))]])])"
    by code_simp
  from normalize_twice [OF c] show ?thesis
    using c by (simp add: a b)
qed

text \<open>
  The object \<open>{"a__b": 1}\<close> is normalized to \<open>{"a_B": 1}\<close>, and that to \<open>{"aB": 1}\<close>.
\<close>

theorem normalize_twice_counterexample:
  "keysToCamelCase (JObject [(js ''a__b'', JNumber 1)]) = JObject [(js ''a_B'', JNumber 1)]
   \<and> keysToCamelCase (keysToCamelCase (JObject [(js ''a__b'', JNumber 1)]))
       = JObject [(js ''aB'', JNumber 1)]
   \<and> keysToCamelCase (keysToCamelCase (JObject [(js ''a__b'', JNumber 1)]))
       \<noteq> keysToCamelCase (JObject [(js ''a__b'', JNumber 1)])"
proof -
  have a: "toCamelCase (js ''a__b'') = js ''a_B''" by code_simp
  have b: "toCamelCase (js ''a_B'') = js ''aB''" by code_simp
  have c: "js ''aB'' \<noteq> js ''a_B''" by (simp add: js_def)
  show ?thesis by (simp add: a b c)
qed

subsection \<open>Colliding keys\<close>

text \<open>
  Claim C8. In an object where a key \<open>k\<close> has the camelCase form of an earlier key, and
  no later key has it, the normalized object binds that camelCase key to the normalized
  value of \<open>k\<close>, the last of the colliding keys in iteration order, and it has fewer
  fields than the input.
\<close>

theorem collision_last_write_wins:
  assumes split: "props = before @ (k, v) # after"
    and earlier: "(ke, ve) \<in> set before"
    and collide: "toCamelCase ke = toCamelCase k"
    and last: "toCamelCase k \<notin> toCamelCase ` fst ` set after"
  shows "map_of (entries (keysToCamelCase (JObject props))) (toCamelCase k)
           = Some (keysToCamelCase v)
       \<and> length (entries (keysToCamelCase (JObject props))) < length props"
proof
  let ?h = "\<lambda>(key, v). (toCamelCase key, keysToCamelCase v)"
  have "map_of (rev (map ?h after)) (toCamelCase k) = None"
    using last by (auto simp: map_of_eq_None_iff image_image case_prod_beta)
  then have "map_of (rev (map ?h props)) (toCamelCase k) = Some (keysToCamelCase v)"
    by (simp add: split map_add_def)
  then show "map_of (entries (keysToCamelCase (JObject props))) (toCamelCase k)
               = Some (keysToCamelCase v)"
    by (simp add: map_of_loop)
next
  from earlier have "toCamelCase (fst (ke, ve)) \<in> toCamelCase ` fst ` set before"
    by blast
  with collide have "toCamelCase k \<in> toCamelCase ` fst ` set before"
    by simp
  then have "toCamelCase ` fst ` set props = toCamelCase ` fst ` set (before @ after)"
    by (auto simp: split)
  then have "card (toCamelCase ` fst ` set props) \<le> card (set (before @ after))"
    by (simp add: image_image card_image_le)
  also have "\<dots> \<le> length (before @ after)"
    by (rule card_length)
  also have "\<dots> < length props"
    by (simp add: split)
  finally show "length (entries (keysToCamelCase (JObject props))) < length props"
    by (simp add: length_loop)
qed

text \<open>An instance: \<open>{"a-b": 1, "a_b": 2}\<close> is normalized to \<open>{"aB": 2}\<close>.\<close>

theorem collision_last_write_wins_witness:
  "keysToCamelCase (JObject [(js ''a-b'', JNumber 1), (js ''a_b'', JNumber 2)])
     = JObject [(js ''aB'', JNumber 2)]
   \<and> map_of (entries (keysToCamelCase (JObject [(js ''a-b'', JNumber 1), (js ''a_b'', JNumber 2)])))
        (toCamelCase (js ''a_b'')) = Some (keysToCamelCase (JNumber 2))
   \<and> length (entries (keysToCamelCase (JObject [(js ''a-b'', JNumber 1), (js ''a_b'', JNumber 2)])))
       < 2"
proof -
  have a: "toCamelCase (js ''a-b'') = js ''aB''" by code_simp
  have b: "toCamelCase (js ''a_b'') = js ''aB''" by code_simp
  show ?thesis
    using collision_last_write_wins
      [where props = "[(js ''a-b'', JNumber 1), (js ''a_b'', JNumber 2)]"
         and before = "[(js ''a-b'', JNumber 1)]" and k = "js ''a_b''" and v = "JNumber 2"
         and after = "[]" and ke = "js ''a-b''" and ve = "JNumber 1"]
    by (simp add: a b)
qed

subsection \<open>Totality and depth\<close>

lemma keysToCamelCase_nest:
  "keysToCamelCase (nest k n v) = nest (toCamelCase k) n (keysToCamelCase v)"
  by (induction n) simp_all

lemma depth_nest: "depth (nest k n v) = 2 * n + depth v"
  by (induction n) simp_all

lemma member_le_max: "x \<in> set xs \<Longrightarrow> x \<le> foldr max xs (0::nat)"
  by (induction xs) auto

lemma below_max_member: "n < foldr max xs (0::nat) \<Longrightarrow> \<exists>x\<in>set xs. n < x"
  by (induction xs) (auto simp: max_def split: if_splits)

text \<open>The loop over the keys when every recursive call returns, and when one raises.\<close>

lemma object_loop_all_return:
  "(\<And>k v. (k, v) \<in> set ps \<Longrightarrow> r v = Inr (g v)) \<Longrightarrow>
   foldl (\<lambda>result (key, v). case result of Inl e \<Rightarrow> Inl e
                      | Inr res \<Rightarrow> (case r v of Inl e \<Rightarrow> Inl e
                                    | Inr w \<Rightarrow> Inr (assign (f key) w res)))
         (Inr acc) ps =
   Inr (foldl (\<lambda>result (key, v). assign (f key) (g v) result) acc ps)"
proof (induction ps arbitrary: acc)
  case Nil
  show ?case by simp
next
  case (Cons p ps)
  obtain k v where p: "p = (k, v)" by (cases p)
  have "r v = Inr (g v)"
    by (rule Cons.prems [of k]) (simp add: p)
  moreover have "r v' = Inr (g v')" if "(k', v') \<in> set ps" for k' v'
    using that by (intro Cons.prems [of k' v']) simp
  ultimately show ?case by (simp add: p Cons.IH)
qed

lemma object_loop_raised:
  "foldl (\<lambda>result (key, v). case result of Inl e \<Rightarrow> Inl e
                      | Inr res \<Rightarrow> (case r v of Inl e \<Rightarrow> Inl e
                                    | Inr w \<Rightarrow> Inr (assign (f key) w res)))
         (Inl e) ps = Inl e"
  by (induction ps) (simp_all add: case_prod_beta)

lemma object_loop_some_raise:
  "(k, v) \<in> set ps \<Longrightarrow> r v = Inl RangeError \<Longrightarrow>
   foldl (\<lambda>result (key, v). case result of Inl e \<Rightarrow> Inl e
                      | Inr res \<Rightarrow> (case r v of Inl e \<Rightarrow> Inl e
                                    | Inr w \<Rightarrow> Inr (assign (f key) w res)))
         a ps = Inl RangeError"
proof (induction ps arbitrary: a)
  case Nil
  then show ?case by simp
next
  case (Cons p ps)
  obtain k' v' where p: "p = (k', v')" by (cases p)
  show ?case
  proof (cases a)
    case (Inl e)
    then show ?thesis by (cases e) (simp add: object_loop_raised)
  next
    case (Inr res)
    show ?thesis
    proof (cases "r v'")
      case (Inl e)
      with Inr show ?thesis by (cases e) (simp add: p object_loop_raised)
    next
      case inr: (Inr w)
      with Cons.prems have "(k, v) \<in> set ps" by (auto simp: p)
      with Cons.prems(2) show ?thesis by (simp add: p Inr inr Cons.IH)
    qed
  qed
qed

text \<open>The same for the \<open>map\<close> over the elements of an array.\<close>

lemma array_loop_all_return:
  "(\<And>x. x \<in> set xs \<Longrightarrow> r x = Inr (g x)) \<Longrightarrow>
   foldl (\<lambda>result x. case result of Inl e \<Rightarrow> Inl e
                      | Inr ys \<Rightarrow> (case r x of Inl e \<Rightarrow> Inl e | Inr y \<Rightarrow> Inr (ys @ [y])))
         (Inr acc) xs =
   Inr (acc @ map g xs)"
  by (induction xs arbitrary: acc) simp_all

lemma array_loop_raised:
  "foldl (\<lambda>result x. case result of Inl e \<Rightarrow> Inl e
                      | Inr ys \<Rightarrow> (case r x of Inl e \<Rightarrow> Inl e | Inr y \<Rightarrow> Inr (ys @ [y])))
         (Inl e) xs = Inl e"
  by (induction xs) simp_all

lemma array_loop_some_raise:
  "\<exists>x\<in>set xs. r x = Inl RangeError \<Longrightarrow>
   foldl (\<lambda>result x. case result of Inl e \<Rightarrow> Inl e
                      | Inr ys \<Rightarrow> (case r x of Inl e \<Rightarrow> Inl e | Inr y \<Rightarrow> Inr (ys @ [y])))
         a xs = Inl RangeError"
proof (induction xs arbitrary: a)
  case Nil
  then show ?case by simp
next
  case (Cons x xs)
  show ?case
  proof (cases a)
    case (Inl e)
    then show ?thesis by (cases e) (simp add: array_loop_raised)
  next
    case (Inr ys)
    show ?thesis
    proof (cases "r x")
      case (Inl e)
      with Inr show ?thesis by (cases e) (simp add: array_loop_raised)
    next
      case inr: (Inr y)
      with Cons.prems have "\<exists>x\<in>set xs. r x = Inl RangeError" by auto
      then show ?thesis by (simp add: Inr inr Cons.IH)
    qed
  qed
qed

text \<open>
  With room for more nested calls than the value is deep, no call overflows and the
  result is that of \<open>keysToCamelCase\<close>.
\<close>

lemma within_stack:
  "depth v < stack \<Longrightarrow> keysToCamelCase_stack stack v = Inr (keysToCamelCase v)"
proof (induction stack arbitrary: v)
  case 0
  then show ?case by simp
next
  case (Suc room)
  show ?case
  proof (cases v)
    case (JObject props)
    have "keysToCamelCase_stack room w = Inr (keysToCamelCase w)" if "(k, w) \<in> set props" for k w
    proof -
      from that have "depth w \<in> set (map (\<lambda>(k, v). depth v) props)"
        by force
      then have "depth w \<le> foldr max (map (\<lambda>(k, v). depth v) props) 0"
        by (rule member_le_max)
      with Suc.prems have "depth w < room"
        by (simp add: JObject)
      then show ?thesis by (rule Suc.IH)
    qed
    then have "foldl (\<lambda>result (key, v). case result of Inl e \<Rightarrow> Inl e
                      | Inr res \<Rightarrow> (case keysToCamelCase_stack room v of Inl e \<Rightarrow> Inl e
                                    | Inr w \<Rightarrow> Inr (assign (toCamelCase key) w res)))
         (Inr []) props =
       Inr (foldl (\<lambda>result (key, v). assign (toCamelCase key) (keysToCamelCase v) result) [] props)"
      by (rule object_loop_all_return)
    then show ?thesis
      by (simp add: JObject)
  next
    case (JArray xs)
    have "keysToCamelCase_stack room x = Inr (keysToCamelCase x)" if "x \<in> set xs" for x
    proof -
      from that have "depth x \<le> foldr max (map depth xs) 0"
        by (intro member_le_max) simp
      with Suc.prems have "depth x < room"
        by (simp add: JArray)
      then show ?thesis by (rule Suc.IH)
    qed
    from array_loop_all_return [of xs "keysToCamelCase_stack room" keysToCamelCase "[]", OF this]
    show ?thesis
      by (simp add: JArray)
  qed simp_all
qed

text \<open>A value nested deeper than the stack has room for makes some call overflow.\<close>

lemma beyond_stack:
  "stack < depth v \<Longrightarrow> keysToCamelCase_stack stack v = Inl RangeError"
proof (induction stack arbitrary: v)
  case 0
  then show ?case by simp
next
  case (Suc room)
  show ?case
  proof (cases v)
    case (JObject props)
    from Suc.prems have "room < foldr max (map (\<lambda>(k, v). depth v) props) 0"
      by (simp add: JObject)
    then obtain k w where kw: "(k, w) \<in> set props" "room < depth w"
      by (auto dest!: below_max_member)
    from kw(2) have "keysToCamelCase_stack room w = Inl RangeError"
      by (rule Suc.IH)
    with kw(1) have "foldl (\<lambda>result (key, v). case result of Inl e \<Rightarrow> Inl e
                      | Inr res \<Rightarrow> (case keysToCamelCase_stack room v of Inl e \<Rightarrow> Inl e
                                    | Inr w \<Rightarrow> Inr (assign (toCamelCase key) w res)))
         (Inr []) props = Inl RangeError"
      by (rule object_loop_some_raise)
    then show ?thesis
      by (simp add: JObject)
  next
    case (JArray xs)
    from Suc.prems have "room < foldr max (map depth xs) 0"
      by (simp add: JArray)
    then obtain x where x: "x \<in> set xs" "room < depth x"
      by (auto dest!: below_max_member)
    from x(2) have "keysToCamelCase_stack room x = Inl RangeError"
      by (rule Suc.IH)
    with x(1) have "\<exists>x\<in>set xs. keysToCamelCase_stack room x = Inl RangeError"
      by blast
    from array_loop_some_raise [of xs "keysToCamelCase_stack room" "Inr []", OF this]
    show ?thesis
      by (simp add: JArray)
  qed (use Suc.prems in simp_all)
qed

text \<open>The keys of the result come in the order in which their camelCase forms are first seen.\<close>

lemma keys_assign_list:
  "map fst (assign k v ps) = (if k \<in> fst ` set ps then map fst ps else map fst ps @ [k])"
  by (induction k v ps rule: assign.induct) auto

lemma keys_loop_order:
  "map fst (foldl (\<lambda>result (key, v). assign (f key) (g v) result) acc ps) =
   map fst acc @ filter (\<lambda>k. k \<notin> fst ` set acc) (first_seen (map (\<lambda>(key, v). f key) ps))"
proof (induction ps arbitrary: acc)
  case Nil
  show ?case by simp
next
  case (Cons p ps)
  obtain k v where p: "p = (k, v)" by (cases p)
  show ?case
  proof (cases "f k \<in> fst ` set acc")
    case True
    then have "filter (\<lambda>x. x \<notin> fst ` set acc) (filter (\<lambda>y. y \<noteq> f k) xs) =
               filter (\<lambda>x. x \<notin> fst ` set acc) xs" for xs
      by (induction xs) auto
    with True show ?thesis
      by (simp add: p Cons.IH keys_assign_list keys_assign insert_absorb)
  next
    case False
    have "filter (\<lambda>x. x \<notin> insert (f k) (fst ` set acc)) xs =
          filter (\<lambda>x. x \<notin> fst ` set acc) (filter (\<lambda>y. y \<noteq> f k) xs)" for xs
      by (induction xs) auto
    with False show ?thesis
      by (simp add: p Cons.IH keys_assign_list keys_assign)
  qed
qed

lemma keys_in_order:
  "map fst (entries (keysToCamelCase (JObject props))) =
   first_seen (map (\<lambda>(key, v). toCamelCase key) props)"
  using keys_loop_order [of toCamelCase keysToCamelCase "[]" props] by simp

text \<open>
  Claim C7, as the code has it. The normalizer ends on every finite JSON-compatible
  value, and its recursion has no depth limit of its own; the limit is the engine's call
  stack. On a stack with room for more nested calls than the value is deep it raises no
  error and returns the normalized value; for every value some stack is large enough,
  and a value under any number \<open>n\<close> of levels of arrays of objects is normalized under
  the same levels. The normalized value is the whole of it: an array is normalized
  element by element, in order; an object becomes an object whose keys are the camelCase
  forms of its keys in the order in which they are first seen, each bound to the
  normalized member that was written last; a value without colliding keys is the input
  with every key at every depth renamed. On a stack with room for fewer calls than the
  value is deep the call raises \<open>RangeError\<close>, so the claim as first stated (never an
  error, at any depth) fails.
\<close>

theorem normalizer_within_stack:
  "(depth v < stack \<longrightarrow> keysToCamelCase_stack stack v = Inr (keysToCamelCase v))
   \<and> (stack < depth v \<longrightarrow> keysToCamelCase_stack stack v = Inl RangeError)
   \<and> (\<exists>enough. keysToCamelCase_stack enough v = Inr (keysToCamelCase v))
   \<and> keysToCamelCase_stack (2 * n + depth v + 1) (nest k n v)
       = Inr (nest (toCamelCase k) n (keysToCamelCase v))
   \<and> keysToCamelCase (JArray xs) = JArray (map keysToCamelCase xs)
   \<and> keysToCamelCase (JObject props) = JObject (entries (keysToCamelCase (JObject props)))
   \<and> map fst (entries (keysToCamelCase (JObject props)))
       = first_seen (map (\<lambda>(key, w). toCamelCase key) props)
   \<and> map_of (entries (keysToCamelCase (JObject props)))
       = map_of (rev (map (\<lambda>(key, w). (toCamelCase key, keysToCamelCase w)) props))
   \<and> (collision_free v \<longrightarrow> keysToCamelCase v = rename_keys toCamelCase v)"
proof -
  have "keysToCamelCase_stack (Suc (depth v)) v = Inr (keysToCamelCase v)"
    by (rule within_stack) simp
  then have enough: "\<exists>enough. keysToCamelCase_stack enough v = Inr (keysToCamelCase v)" ..
  have "depth (nest k n v) < 2 * n + depth v + 1"
    by (simp add: depth_nest)
  then have deep: "keysToCamelCase_stack (2 * n + depth v + 1) (nest k n v)
       = Inr (nest (toCamelCase k) n (keysToCamelCase v))"
    by (simp only: within_stack keysToCamelCase_nest)
  have order: "map fst (entries (keysToCamelCase (JObject props)))
       = first_seen (map (\<lambda>(key, w). toCamelCase key) props)"
    by (rule keys_in_order)
  have binding: "map_of (entries (keysToCamelCase (JObject props)))
       = map_of (rev (map (\<lambda>(key, w). (toCamelCase key, keysToCamelCase w)) props))"
    by (simp add: map_of_loop)
  from enough deep order binding show ?thesis
    by (simp add: within_stack beyond_stack keysToCamelCase_rename)
qed

text \<open>
  An instance, the specification's nested example, of depth 4: with room for five nested
  calls it is normalized in full, with room for three the call raises.
\<close>

theorem normalizer_within_stack_witness:
  "depth (JObject [(js ''status'', JString (js ''SENT'')),
                   (js ''error_detail'',
                    JObject [(js ''error_code'', JString (js ''42'')),
                             (js ''nested_list'',
                              JArray [JObject [(js ''from_number'', JString (js ''x''))]])])]) = 4
   \<and> keysToCamelCase_stack 5
        (JObject [(js ''status'', JString (js ''SENT'')),
                  (js ''error_detail'',
                   JObject [(js ''error_code'', JString (js ''42'')),
                            (js ''nested_list'',
                             JArray [JObject [(js ''from_number'', JString (js ''x''))]])])])
     = Inr (JObject [(js ''status'', JString (js ''SENT'')),
                     (js ''errorDetail'',
                      JObject [(js ''errorCode'', JString (js ''42'')),
                               (js ''nestedList'',
                                JArray [JObject [(js ''fromNumber'', JString (js ''x''))]])])])
   \<and> keysToCamelCase_stack 3
        (JObject [(js ''status'', JString (js ''SENT'')),
                  (js ''error_detail'',
                   JObject [(js ''error_code'', JString (js ''42'')),
                            (js ''nested_list'',
                             JArray [JObject [(js ''from_number'', JString (js ''x''))]])])])
     = Inl RangeError"
proof -
  have a: "toCamelCase (js ''status'') = js ''status''" by code_simp
  have b: "toCamelCase (js ''error_detail'') = js ''errorDetail''" by code_simp
  have c: "toCamelCase (js ''error_code'') = js ''errorCode''" by code_simp
  have d: "toCamelCase (js ''nested_list'') = js ''nestedList''" by code_simp
  have e: "toCamelCase (js ''from_number'') = js ''fromNumber''" by code_simp
  have f: "js ''status'' \<noteq> js ''errorDetail''" "js ''errorCode'' \<noteq> js ''nestedList''"
    by (simp_all add: js_def)
  show ?thesis
    using normalizer_within_stack
      [where v = "JObject [(js ''status'', JString (js ''SENT'')),
                  (js ''error_detail'',
                   JObject [(js ''error_code'', JString (js ''42'')),
                            (js ''nested_list'',
                             JArray [JObject [(js ''from_number'', JString (js ''x''))]])])]"
         and stack = 5]
      normalizer_within_stack
      [where v = "JObject [(js ''status'', JString (js ''SENT'')),
                  (js ''error_detail'',
                   JObject [(js ''error_code'', JString (js ''42'')),
                            (js ''nested_list'',
                             JArray [JObject [(js ''from_number'', JString (js ''x''))]])])]"
         and stack = 3]
    by (simp add: a b c d e f)
qed

text \<open>
  With room for two nested calls, an array in an array needs a third for its element
  and the call raises. With room
  for a thousand, a value under a thousand levels of arrays of objects, which lies at
  depth 2000, makes it raise as well.
\<close>

theorem normalizer_within_stack_counterexample:
  "keysToCamelCase_stack 2 (JArray [JArray [JNumber 1]]) = Inl RangeError
   \<and> depth (nest (js ''a_b'') 1000 JNull) = 2000
   \<and> keysToCamelCase_stack 1000 (nest (js ''a_b'') 1000 JNull) = Inl RangeError"
proof -
  have small: "keysToCamelCase_stack 2 (JArray [JArray [JNumber 1]]) = Inl RangeError"
    by code_simp
  have d: "depth (nest (js ''a_b'') 1000 JNull) = 2000"
    by (simp add: depth_nest)
  then have "keysToCamelCase_stack 1000 (nest (js ''a_b'') 1000 JNull) = Inl RangeError"
    by (intro beyond_stack) simp
  with small d show ?thesis by simp
qed

section \<open>Properties of the request pipeline\<close>

subsection \<open>The request\<close>

text \<open>
  Claim C6, as the code has it. Every call hands exactly one request to the transport.
  Its URL is the base origin followed by the path as given, its verb is the given one in
  upper case, its headers are the two credential headers with the constructor's public
  and secret key and \<open>Content-Type: application/json\<close>, and its body is the JSON
  serialization of the payload when a payload is given and is truthy, that is, is not
  null, false, 0 or the empty string; otherwise there is no body. The claim as first
  stated fails for a payload that is given and falsy.
\<close>

theorem api_request:
  "fst (api fetch publicKey secretKey meth pathname payload) =
     [\<lparr>url = js ''https://api.sendblue.co'' @ pathname,
       http_method =
         (case meth of Post \<Rightarrow> js ''POST'' | Get \<Rightarrow> js ''GET'' | Delete \<Rightarrow> js ''DELETE''),
       body = (case payload of
                 None \<Rightarrow> None
               | Some p \<Rightarrow>
                   if p \<in> {JNull, JBool False, JNumber 0, JString []} then None
                   else Some (JSON_stringify p)),
       headers = [(js ''sb-api-key-id'', publicKey),
                  (js ''sb-api-secret-key'', secretKey),
                  (js ''Content-Type'', js ''application/json'')]\<rparr>]"
proof -
  have v: "toUpperCase (verb_text meth) =
           (case meth of Post \<Rightarrow> js ''POST'' | Get \<Rightarrow> js ''GET'' | Delete \<Rightarrow> js ''DELETE'')"
    by (cases meth) (simp_all add: toUpperCase_def upper_unit_def js_def)
  have t: "truthy p \<longleftrightarrow> p \<notin> {JNull, JBool False, JNumber 0, JString []}" for p
    by (cases p) auto
  show ?thesis
    by (simp add: api_def Let_def fetch_request_def sendblueBaseUrl_def v t split: option.splits)
qed

text \<open>The payload 0 is given, and the request has no body.\<close>

theorem api_request_counterexample:
  "map body (fst (api (\<lambda>req. Inl (js ''offline'')) (js ''key'') (js ''secret'') Post
                   (js ''/modify-group'') (Some (JNumber 0))))
     = [None]
   \<and> map body (fst (api (\<lambda>req. Inl (js ''offline'')) (js ''key'') (js ''secret'') Post
                   (js ''/modify-group'') (Some (JNumber 0))))
     \<noteq> [Some (JSON_stringify (JNumber 0))]"
  by (simp add: api_def Let_def fetch_request_def)

subsection \<open>The outcome\<close>

lemma keysToCamelCase_not_null: "parsed \<noteq> JNull \<Longrightarrow> keysToCamelCase parsed \<noteq> JNull"
  by (cases parsed) simp_all

lemma read_message_not_null:
  "w \<noteq> JNull \<Longrightarrow> read_message w = Inr (map_of (entries w) (js ''message''))"
  by (cases w) simp_all

text \<open>
  Claim C5, as the code has it. For a call whose response body parses as JSON: on a
  success status the normalized body is returned and no error is raised; on any other
  status, with a body other than null, the call raises the structured error named
  \<open>API_REQUEST_FAILURE\<close>, whose message holds the path between double quotes and whose
  cause holds the JSON serialization of the payload (undefined when none was given), the
  status code, and the \<open>message\<close> field of the normalized body (undefined when it has
  none); so for such bodies the structured error is raised exactly when the status is
  not a success status. The claim as first stated fails when the body is not JSON: the
  status is then never looked at.
\<close>

theorem api_structured_error:
  assumes sent: "fetch (fetch_request publicKey secretKey meth pathname payload) = Inr resp"
    and parsed: "json_body resp = Inr parsed"
  shows "(ok resp \<longrightarrow>
            snd (api fetch publicKey secretKey meth pathname payload)
              = Inr (keysToCamelCase parsed))
       \<and> (\<not> ok resp \<and> parsed \<noteq> JNull \<longrightarrow>
            snd (api fetch publicKey secretKey meth pathname payload) =
            Inl (SendblueError
              \<lparr>name = API_REQUEST_FAILURE,
               message = js ''Error fetching data from Sendblue on route ''
                           @ [0x22] @ pathname @ [0x22],
               cause = \<lparr>request = map_option JSON_stringify payload,
                         response = \<lparr>code = status resp,
                                     cause_response.message =
                                       map_of (entries (keysToCamelCase parsed)) (js ''message'')\<rparr>\<rparr>\<rparr>))
       \<and> (parsed \<noteq> JNull \<longrightarrow>
            (raised_structured (snd (api fetch publicKey secretKey meth pathname payload))
             \<longleftrightarrow> \<not> ok resp))"
  using sent parsed
  by (simp add: api_def Let_def read_message_not_null keysToCamelCase_not_null)

text \<open>
  Two instances, from the specification: status 400 with the body
  \<open>{"message": "bad number"}\<close>, and status 200 with the body
  \<open>{"accountEmail": "a@b.com", "is_outbound": true}\<close>.
\<close>

theorem api_structured_error_witness:
  "snd (api (\<lambda>req. Inr \<lparr>status = 400,
                 json_body = Inr (JObject [(js ''message'', JString (js ''bad number''))])\<rparr>)
         (js ''key'') (js ''secret'') Post (js ''/api/send-message'')
         (Some (JObject [(js ''number'', JString (js ''+1''))])))
   = Inl (SendblueError
       \<lparr>name = API_REQUEST_FAILURE,
        message = js ''Error fetching data from Sendblue on route '' @ [0x22]
                    @ js ''/api/send-message'' @ [0x22],
        cause = \<lparr>request = Some (JSON_stringify (JObject [(js ''number'', JString (js ''+1''))])),
                  response = \<lparr>code = 400,
                              cause_response.message = Some (JString (js ''bad number''))\<rparr>\<rparr>\<rparr>)
   \<and> snd (api (\<lambda>req. Inr \<lparr>status = 200,
                 json_body = Inr (JObject [(js ''accountEmail'', JString (js ''a@b.com'')),
                                           (js ''is_outbound'', JBool True)])\<rparr>)
         (js ''key'') (js ''secret'') Get (js ''/api/message/1'') None)
   = Inr (JObject [(js ''accountEmail'', JString (js ''a@b.com'')),
                   (js ''isOutbound'', JBool True)])"
proof -
  have m: "toCamelCase (js ''message'') = js ''message''" by code_simp
  have a: "toCamelCase (js ''accountEmail'') = js ''accountEmail''" by code_simp
  have b: "toCamelCase (js ''is_outbound'') = js ''isOutbound''" by code_simp
  have c: "js ''accountEmail'' \<noteq> js ''isOutbound''" by (simp add: js_def)
  have "snd (api (\<lambda>req. Inr \<lparr>status = 400,
                 json_body = Inr (JObject [(js ''message'', JString (js ''bad number''))])\<rparr>)
         (js ''key'') (js ''secret'') Post (js ''/api/send-message'')
         (Some (JObject [(js ''number'', JString (js ''+1''))])))
   = Inl (SendblueError
       \<lparr>name = API_REQUEST_FAILURE,
        message = js ''Error fetching data from Sendblue on route '' @ [0x22]
                    @ js ''/api/send-message'' @ [0x22],
        cause = \<lparr>request = Some (JSON_stringify (JObject [(js ''number'', JString (js ''+1''))])),
                  response = \<lparr>code = 400,
                              cause_response.message = Some (JString (js ''bad number''))\<rparr>\<rparr>\<rparr>)"
    using api_structured_error
      [where fetch = "\<lambda>req. Inr \<lparr>status = 400,
                 json_body = Inr (JObject [(js ''message'', JString (js ''bad number''))])\<rparr>"
         and publicKey = "js ''key''" and secretKey = "js ''secret''" and meth = Post
         and pathname = "js ''/api/send-message''"
         and payload = "Some (JObject [(js ''number'', JString (js ''+1''))])"
         and resp = "\<lparr>status = 400,
                 json_body = Inr (JObject [(js ''message'', JString (js ''bad number''))])\<rparr>"
         and parsed = "JObject [(js ''message'', JString (js ''bad number''))]"]
    by (simp add: ok_def m)
  moreover have "snd (api (\<lambda>req. Inr \<lparr>status = 200,
                 json_body = Inr (JObject [(js ''accountEmail'', JString (js ''a@b.com'')),
                                           (js ''is_outbound'', JBool True)])\<rparr>)
         (js ''key'') (js ''secret'') Get (js ''/api/message/1'') None)
   = Inr (JObject [(js ''accountEmail'', JString (js ''a@b.com'')),
                   (js ''isOutbound'', JBool True)])"
    using api_structured_error
      [where fetch = "\<lambda>req. Inr \<lparr>status = 200,
                 json_body = Inr (JObject [(js ''accountEmail'', JString (js ''a@b.com'')),
                                           (js ''is_outbound'', JBool True)])\<rparr>"
         and publicKey = "js ''key''" and secretKey = "js ''secret''" and meth = Get
         and pathname = "js ''/api/message/1''" and payload = None
         and resp = "\<lparr>status = 200,
                 json_body = Inr (JObject [(js ''accountEmail'', JString (js ''a@b.com'')),
                                           (js ''is_outbound'', JBool True)])\<rparr>"
         and parsed = "JObject [(js ''accountEmail'', JString (js ''a@b.com'')),
                                (js ''is_outbound'', JBool True)]"]
    by (simp add: ok_def a b c)
  ultimately show ?thesis by (rule conjI)
qed

text \<open>
  Status 500 with a body that is not JSON: the status is not a success status, and the
  rejection is not the structured error.
\<close>

theorem api_structured_error_counterexample:
  "\<not> ok \<lparr>status = 500, json_body = Inl (js ''SyntaxError'')\<rparr>
   \<and> \<not> raised_structured
        (snd (api (\<lambda>req. Inr \<lparr>status = 500, json_body = Inl (js ''SyntaxError'')\<rparr>)
                (js ''key'') (js ''secret'') Get (js ''/accounts/contacts'') None))"
  by (simp add: api_def Let_def ok_def)

text \<open>
  Claim C9. The body is parsed and normalized before the status is looked at: for every
  response whose body is not valid JSON, whatever its status, the call is rejected with
  the failure of the parse, and the structured error is not raised.
\<close>

theorem api_body_parse_failure:
  assumes sent: "fetch (fetch_request publicKey secretKey meth pathname payload) = Inr resp"
    and failed: "json_body resp = Inl reason"
  shows "snd (api fetch publicKey secretKey meth pathname payload) = Inl (JsonRejected reason)
       \<and> \<not> raised_structured (snd (api fetch publicKey secretKey meth pathname payload))"
  using sent failed by (simp add: api_def Let_def)

text \<open>Two instances: a success status and a failure status.\<close>

theorem api_body_parse_failure_witness:
  "snd (api (\<lambda>req. Inr \<lparr>status = 200, json_body = Inl (js ''SyntaxError'')\<rparr>)
         (js ''key'') (js ''secret'') Get (js ''/accounts/contacts'') None)
     = Inl (JsonRejected (js ''SyntaxError''))
   \<and> snd (api (\<lambda>req. Inr \<lparr>status = 502, json_body = Inl (js ''SyntaxError'')\<rparr>)
         (js ''key'') (js ''secret'') Get (js ''/accounts/contacts'') None)
     = Inl (JsonRejected (js ''SyntaxError''))"
proof -
  have "snd (api (\<lambda>req. Inr \<lparr>status = 200, json_body = Inl (js ''SyntaxError'')\<rparr>)
         (js ''key'') (js ''secret'') Get (js ''/accounts/contacts'') None)
     = Inl (JsonRejected (js ''SyntaxError''))"
    using api_body_parse_failure
      [where fetch = "\<lambda>req. Inr \<lparr>status = 200, json_body = Inl (js ''SyntaxError'')\<rparr>"
         and publicKey = "js ''key''" and secretKey = "js ''secret''" and meth = Get
         and pathname = "js ''/accounts/contacts''" and payload = None
         and resp = "\<lparr>status = 200, json_body = Inl (js ''SyntaxError'')\<rparr>"
         and reason = "js ''SyntaxError''"]
    by simp
  moreover have "snd (api (\<lambda>req. Inr \<lparr>status = 502, json_body = Inl (js ''SyntaxError'')\<rparr>)
         (js ''key'') (js ''secret'') Get (js ''/accounts/contacts'') None)
     = Inl (JsonRejected (js ''SyntaxError''))"
    using api_body_parse_failure
      [where fetch = "\<lambda>req. Inr \<lparr>status = 502, json_body = Inl (js ''SyntaxError'')\<rparr>"
         and publicKey = "js ''key''" and secretKey = "js ''secret''" and meth = Get
         and pathname = "js ''/accounts/contacts''" and payload = None
         and resp = "\<lparr>status = 502, json_body = Inl (js ''SyntaxError'')\<rparr>"
         and reason = "js ''SyntaxError''"]
    by simp
  ultimately show ?thesis by (rule conjI)
qed

end
